theory Spec2Isabelle
  imports Complex_Main "HOL-Library.Option_ord"
begin

section \<open>Characters and decimal rendering\<close>

text \<open>
  Strings are lists of bytes. The character classes are the ASCII ones: letters outside
  ASCII are neither upper case nor alphanumeric here.
\<close>

definition is_digit :: "char \<Rightarrow> bool" where
  "is_digit c = (let n = (of_char c :: nat) in 48 \<le> n \<and> n \<le> 57)"

definition is_upper :: "char \<Rightarrow> bool" where
  "is_upper c = (let n = (of_char c :: nat) in 65 \<le> n \<and> n \<le> 90)"

definition is_lower :: "char \<Rightarrow> bool" where
  "is_lower c = (let n = (of_char c :: nat) in 97 \<le> n \<and> n \<le> 122)"

definition is_alnum :: "char \<Rightarrow> bool" where
  "is_alnum c = (is_digit c \<or> is_upper c \<or> is_lower c)"

definition is_space :: "char \<Rightarrow> bool" where
  "is_space c = (let n = (of_char c :: nat) in n = 32 \<or> (9 \<le> n \<and> n \<le> 13))"

definition toLowerCase :: "char \<Rightarrow> char" where
  "toLowerCase c = (if is_upper c then char_of ((of_char c :: nat) + 32) else c)"

definition dash :: char where
  "dash = CHR ''-''"

text \<open>The decimal text of a number, as a template literal renders it.\<close>

definition digit_char :: "nat \<Rightarrow> char" where
  "digit_char d = char_of (48 + d)"

fun show_nat :: "nat \<Rightarrow> string" where
  "show_nat n = (if n < 10 then [digit_char n] else show_nat (n div 10) @ [digit_char (n mod 10)])"

declare show_nat.simps [simp del]

section \<open>The Store schema\<close>

text \<open>
  The fields of \<open>storeSchema\<close> that the hooks and the aggregations read or write.
  \<open>created\<close> and \<open>location\<close> are touched by none of them and are left out.
\<close>

record store =
  store_id :: nat
  name :: string
  slug :: string
  description :: string
  tags :: "string list"
  photo :: string
  author :: nat

record review =
  review_store :: nat
  rating :: rat

text \<open>The reviews whose \<open>store\<close> field holds a given identifier.\<close>

definition reviews_of :: "review list \<Rightarrow> nat \<Rightarrow> review list" where
  "reviews_of rs i = filter (\<lambda>r. review_store r = i) rs"

section \<open>The slug transform\<close>

text \<open>
  The schema calls \<open>slug\<close>, the function of the package \<open>slugs\<close>, which the repository
  requires and does not contain. It is modelled here from the spec's description of the
  transform: lowercase, trim, replace runs of non-alphanumeric characters with a single
  dash, strip leading and trailing dashes.
\<close>

text \<open>Modelled from the spec: the trimming step of \<open>slugs\<close>, which removes white space at both ends.\<close>

definition trim :: "string \<Rightarrow> string" where
  "trim s = rev (dropWhile is_space (rev (dropWhile is_space s)))"

text \<open>
  Modelled from the spec: the step of \<open>slugs\<close> that replaces each run of non-alphanumeric
  characters with a single dash.
\<close>

function collapse :: "string \<Rightarrow> string" where
  "collapse [] = []"
| "collapse (c # cs) =
     (if is_alnum c then c # collapse cs
      else dash # collapse (dropWhile (\<lambda>x. \<not> is_alnum x) cs))"
  by pat_completeness auto
termination
  by (relation "measure length") (auto simp: length_dropWhile_le less_Suc_eq_le)

text \<open>Modelled from the spec: the step of \<open>slugs\<close> that strips leading and trailing dashes.\<close>

definition strip_dashes :: "string \<Rightarrow> string" where
  "strip_dashes s = rev (dropWhile (\<lambda>c. c = dash) (rev (dropWhile (\<lambda>c. c = dash) s)))"

text \<open>
  Modelled from the spec: the function \<open>slug\<close> of the package \<open>slugs\<close>, missing from the
  repository: lowercase, trim, replace runs of non-alphanumeric characters with a single
  dash, strip leading and trailing dashes.
\<close>

definition slugs :: "string \<Rightarrow> string" where
  "slugs s = strip_dashes (collapse (trim (map toLowerCase s)))"

section \<open>The pre-save hook\<close>

text \<open>
  \<open>new RegExp(`^(${this.slug})((-[0-9]*$)?)$`, 'i')\<close>: the base, compared without regard
  to case, then either the end of the string or a dash followed by any number of digits.
  The base is read as literal text, which it is when it holds only letters, digits and
  dashes.
\<close>

fun match_ci :: "string \<Rightarrow> string \<Rightarrow> string option" where
  "match_ci [] s = Some s"
| "match_ci (b # bs) [] = None"
| "match_ci (b # bs) (c # cs) =
     (if toLowerCase b = toLowerCase c then match_ci bs cs else None)"

definition slugRegEx :: "string \<Rightarrow> string \<Rightarrow> bool" where
  "slugRegEx base s =
     (case match_ci base s of
        None \<Rightarrow> False
      | Some [] \<Rightarrow> True
      | Some (c # ds) \<Rightarrow> c = dash \<and> list_all is_digit ds)"

text \<open>\<open>this.constructor.find({ slug: slugRegEx })\<close> over the stored collection.\<close>

definition find_slug :: "store list \<Rightarrow> string \<Rightarrow> store list" where
  "find_slug db base = filter (\<lambda>s. slugRegEx base (slug s)) db"

text \<open>
  The hook receives the stored collection, the paths modified on the document and the
  document itself, and returns the document as it is committed.
\<close>

definition pre_save :: "store list \<Rightarrow> string list \<Rightarrow> store \<Rightarrow> store" where
  "pre_save db modified this =
     (if ''name'' \<notin> set modified then this
      else
        let this1 = this\<lparr>slug := slugs (name this)\<rparr>;
            storesWithSlug = find_slug db (slug this1)
        in if length storesWithSlug \<noteq> 0
           then this1\<lparr>slug := slug this1 @ ''-'' @ show_nat (length storesWithSlug + 1)\<rparr>
           else this1)"

text \<open>
  Committing the document: the hook runs, then the document replaces the stored one with
  its identifier, or is added when there is none.
\<close>

definition save :: "store list \<Rightarrow> string list \<Rightarrow> store \<Rightarrow> store list" where
  "save db modified this =
     (let d = pre_save db modified this
      in if list_ex (\<lambda>s. store_id s = store_id d) db
         then map (\<lambda>s. if store_id s = store_id d then d else s) db
         else db @ [d])"

text \<open>A freshly constructed document, before any hook has run.\<close>

definition new_Store :: "nat \<Rightarrow> string \<Rightarrow> string list \<Rightarrow> store" where
  "new_Store i n ts =
     \<lparr>store_id = i, name = n, slug = [], description = [], tags = ts, photo = [], author = 0\<rparr>"


text \<open>A document's slug is the slug of another stored document.\<close>

definition collides :: "store list \<Rightarrow> store \<Rightarrow> bool" where
  "collides db d = list_ex (\<lambda>s. store_id s \<noteq> store_id d \<and> slug s = slug d) db"

text \<open>
  The query as the spec words it, for comparison with \<open>find_slug\<close>: the document being
  saved is left out, and a dash must be followed by at least one digit.
\<close>

definition spec_pattern :: "string \<Rightarrow> string \<Rightarrow> bool" where
  "spec_pattern base s =
     (case match_ci base s of
        None \<Rightarrow> False
      | Some [] \<Rightarrow> True
      | Some (c # ds) \<Rightarrow> c = dash \<and> ds \<noteq> [] \<and> list_all is_digit ds)"

definition spec_find_slug :: "store list \<Rightarrow> store \<Rightarrow> string \<Rightarrow> store list" where
  "spec_find_slug db this base =
     filter (\<lambda>s. store_id s \<noteq> store_id this \<and> spec_pattern base (slug s)) db"

section \<open>Aggregations\<close>

text \<open>
  \<open>$sort\<close> with direction \<open>-1\<close>: an insertion sort, largest key first. Documents with
  equal keys keep the order they arrive in; the engine promises no order for them.
\<close>

fun insert_desc :: "('a \<Rightarrow> 'k::linorder) \<Rightarrow> 'a \<Rightarrow> 'a list \<Rightarrow> 'a list" where
  "insert_desc f x [] = [x]"
| "insert_desc f x (y # ys) = (if f y \<le> f x then x # y # ys else y # insert_desc f x ys)"

definition sort_desc :: "('a \<Rightarrow> 'k::linorder) \<Rightarrow> 'a list \<Rightarrow> 'a list" where
  "sort_desc f xs = foldr (insert_desc f) xs []"

subsection \<open>getTagsList\<close>

text \<open>\<open>$unwind: '$tags'\<close>: one row for each element of each store's \<open>tags\<close>.\<close>

definition unwind_tags :: "store list \<Rightarrow> (store \<times> string) list" where
  "unwind_tags db = concat (map (\<lambda>s. map (\<lambda>t. (s, t)) (tags s)) db)"

record tag_group =
  group_id :: string
  count :: nat

text \<open>
  \<open>$group: { _id: '$tags', count: { $sum: 1 } }\<close>: each row adds one to the group of its
  tag, opening the group when the tag is met for the first time.
\<close>

fun group_add :: "string \<Rightarrow> tag_group list \<Rightarrow> tag_group list" where
  "group_add t [] = [\<lparr>group_id = t, count = 1\<rparr>]"
| "group_add t (g # gs) =
     (if group_id g = t then g\<lparr>count := count g + 1\<rparr> # gs else g # group_add t gs)"

definition group_by_tag :: "(store \<times> string) list \<Rightarrow> tag_group list" where
  "group_by_tag rows = foldl (\<lambda>gs r. group_add (snd r) gs) [] rows"

definition getTagsList :: "store list \<Rightarrow> tag_group list" where
  "getTagsList db = sort_desc count (group_by_tag (unwind_tags db))"

text \<open>The number of stores that carry a tag, for comparison with \<open>count\<close>.\<close>

definition stores_with_tag :: "store list \<Rightarrow> string \<Rightarrow> nat" where
  "stores_with_tag db t = length (filter (\<lambda>s. t \<in> set (tags s)) db)"

subsection \<open>getTopStores\<close>

text \<open>
  \<open>$lookup\<close> from \<open>reviews\<close> with \<open>localField: '_id'\<close> and \<open>foreignField: 'store'\<close>, as
  \<open>reviews\<close>.
\<close>

definition lookup_reviews :: "review list \<Rightarrow> store list \<Rightarrow> (store \<times> review list) list" where
  "lookup_reviews rs db = map (\<lambda>s. (s, reviews_of rs (store_id s))) db"

text \<open>\<open>$match: { 'reviews.1': { $exists: true } }\<close>: the joined list has an element at index 1.\<close>

definition match_second_review :: "(store \<times> review list) list \<Rightarrow> (store \<times> review list) list" where
  "match_second_review rows = filter (\<lambda>row. 1 < length (snd row)) rows"

text \<open>\<open>$avg\<close> is null on an empty list.\<close>

definition avg :: "rat list \<Rightarrow> rat option" where
  "avg xs = (if xs = [] then None else Some (sum_list xs / of_nat (length xs)))"

record top_store =
  ts_id :: nat
  ts_photo :: string
  ts_name :: string
  ts_reviews :: "review list"
  ts_slug :: string
  averageRating :: "rat option"

definition project :: "store \<times> review list \<Rightarrow> top_store" where
  "project row =
     \<lparr>ts_id = store_id (fst row), ts_photo = photo (fst row), ts_name = name (fst row),
      ts_reviews = snd row, ts_slug = slug (fst row),
      averageRating = avg (map rating (snd row))\<rparr>"

text \<open>The pipeline up to and including \<open>$sort: { averageRating: -1 }\<close>.\<close>

definition rankedStores :: "store list \<Rightarrow> review list \<Rightarrow> top_store list" where
  "rankedStores db rs =
     sort_desc averageRating (map project (match_second_review (lookup_reviews rs db)))"

text \<open>\<open>$limit: 10\<close> ends the pipeline.\<close>

definition getTopStores :: "store list \<Rightarrow> review list \<Rightarrow> top_store list" where
  "getTopStores db rs = take 10 (rankedStores db rs)"

text \<open>What the pipeline makes of one store: its projection with its reviews joined.\<close>

definition top_entry :: "review list \<Rightarrow> store \<Rightarrow> top_store" where
  "top_entry rs s = project (s, reviews_of rs (store_id s))"

definition has_two_reviews :: "review list \<Rightarrow> store \<Rightarrow> bool" where
  "has_two_reviews rs s = (2 \<le> length (reviews_of rs (store_id s)))"

text \<open>Eleven stores with two reviews each.\<close>

definition eleven_stores :: "store list" where
  "eleven_stores = map (\<lambda>i. new_Store i ''shop'' []) [1 ..< 12]"

definition eleven_reviews :: "review list" where
  "eleven_reviews =
     concat (map (\<lambda>i. [\<lparr>review_store = i, rating = 3\<rparr>, \<lparr>review_store = i, rating = 4\<rparr>]) [1 ..< 12])"

text \<open>
  Store 1 with reviews rated 4 and 5, store 2 with three reviews rated 3, store 3 with a
  single review.
\<close>

definition example_stores :: "store list" where
  "example_stores = [new_Store 1 ''X'' [], new_Store 2 ''Y'' [], new_Store 3 ''Z'' []]"

definition example_reviews :: "review list" where
  "example_reviews =
     [\<lparr>review_store = 2, rating = 3\<rparr>, \<lparr>review_store = 1, rating = 4\<rparr>,
      \<lparr>review_store = 2, rating = 3\<rparr>, \<lparr>review_store = 3, rating = 5\<rparr>,
      \<lparr>review_store = 1, rating = 5\<rparr>, \<lparr>review_store = 2, rating = 3\<rparr>]"

section \<open>Read-time population\<close>

text \<open>
  A query carries its operation, its conditions and the paths to populate. The schema
  registers \<open>autopopulate\<close> as the pre-hook of \<open>find\<close> and of \<open>findOne\<close>; executing a query
  runs the hooks of its operation, selects the documents, and attaches to each the
  virtuals named in the populate paths. The virtual \<open>reviews\<close> holds the reviews whose
  \<open>store\<close> is the document's \<open>_id\<close>.
\<close>

datatype query_op = Find | FindOne

record query =
  operation :: query_op
  conditions :: "store \<Rightarrow> bool"
  populate_paths :: "string list"

record fetched_store =
  doc :: store
  reviews :: "review list option"

definition autopopulate :: "query \<Rightarrow> query" where
  "autopopulate q = q\<lparr>populate_paths := populate_paths q @ [''reviews'']\<rparr>"

definition pre_hooks :: "query_op \<Rightarrow> (query \<Rightarrow> query) list" where
  "pre_hooks opn = (case opn of Find \<Rightarrow> [autopopulate] | FindOne \<Rightarrow> [autopopulate])"

definition virtual_reviews :: "review list \<Rightarrow> store \<Rightarrow> review list" where
  "virtual_reviews rs s = reviews_of rs (store_id s)"

definition exec_query :: "store list \<Rightarrow> review list \<Rightarrow> query \<Rightarrow> fetched_store list" where
  "exec_query db rs q =
     (let q1 = fold (\<lambda>hook acc. hook acc) (pre_hooks (operation q)) q;
          matched = filter (conditions q1) db;
          docs = (case operation q1 of Find \<Rightarrow> matched | FindOne \<Rightarrow> take 1 matched)
      in map (\<lambda>s. \<lparr>doc = s,
                     reviews = (if ''reviews'' \<in> set (populate_paths q1)
                                then Some (virtual_reviews rs s) else None)\<rparr>) docs)"

section \<open>Mail\<close>

text \<open>
  The caller's options: the template name, the user, the subject and whatever else the
  template reads. A missing \<open>user\<close>, \<open>email\<close> or \<open>subject\<close> is \<open>None\<close>. The template
  engine, the style inliner, the text converter and the transport are libraries, taken
  as parameters; rendering and the transport can fail.
\<close>

datatype error = RenderError | TypeError | TransportError

record user =
  email :: "string option"

record options =
  filename :: string
  user :: "user option"
  subject :: "string option"
  locals :: "(string \<times> string) list"

record mail =
  mail_from :: string
  mail_to :: "string option"
  mail_subject :: "string option"
  mail_html :: string
  mail_text :: string

definition generateHTML ::
  "string \<Rightarrow> (string \<Rightarrow> options \<Rightarrow> error + string) \<Rightarrow> (string \<Rightarrow> string) \<Rightarrow>
   string \<Rightarrow> options \<Rightarrow> error + string" where
  "generateHTML dirname renderFile juice file opts =
     (case renderFile (dirname @ ''/../views/email/'' @ file @ ''.pug'') opts of
        Inl e \<Rightarrow> Inl e
      | Inr html \<Rightarrow> Inr (juice html))"

text \<open>The \<open>mailOptions\<close> that \<open>send\<close> builds, or the error raised before they are built.\<close>

definition mailOptions ::
  "string \<Rightarrow> (string \<Rightarrow> options \<Rightarrow> error + string) \<Rightarrow> (string \<Rightarrow> string) \<Rightarrow>
   (string \<Rightarrow> string) \<Rightarrow> options \<Rightarrow> error + mail" where
  "mailOptions dirname renderFile juice fromString opts =
     (case generateHTML dirname renderFile juice (filename opts) opts of
        Inl e \<Rightarrow> Inl e
      | Inr html \<Rightarrow>
          let text = fromString html
          in (case user opts of
                None \<Rightarrow> Inl TypeError
              | Some u \<Rightarrow>
                  Inr \<lparr>mail_from = ''Bill Schupp <noreply@bill.com>'', mail_to = email u,
                       mail_subject = subject opts, mail_html = html, mail_text = text\<rparr>))"

definition send ::
  "string \<Rightarrow> (string \<Rightarrow> options \<Rightarrow> error + string) \<Rightarrow> (string \<Rightarrow> string) \<Rightarrow>
   (string \<Rightarrow> string) \<Rightarrow> (mail \<Rightarrow> error + 'r) \<Rightarrow> options \<Rightarrow> error + 'r" where
  "send dirname renderFile juice fromString sendMail opts =
     (case mailOptions dirname renderFile juice fromString opts of
        Inl e \<Rightarrow> Inl e
      | Inr m \<Rightarrow> sendMail m)"

text \<open>
  Options that carry a \<open>from\<close> of their own among the template variables, and a template
  engine that returns the path it was given.
\<close>

definition example_options :: options where
  "example_options =
     \<lparr>filename = ''password-reset'',
      user = Some \<lparr>email = Some ''randy@example.com''\<rparr>,
      subject = Some ''Password Reset'',
      locals = [(''from'', ''Mallory <mallory@example.com>'')]\<rparr>"

definition example_renderFile :: "string \<Rightarrow> options \<Rightarrow> error + string" where
  "example_renderFile path opts = Inr (''<p>'' @ path @ ''</p>'')"

section \<open>Auxiliary notions for the proofs\<close>

text \<open>
  The shape of a collapsed string: every character is a letter, a digit or a dash, and a
  dash is followed by a letter or digit unless it ends the string.
\<close>

fun sep :: "string \<Rightarrow> bool" where
  "sep [] = True"
| "sep [c] = (is_alnum c \<or> c = dash)"
| "sep (c # d # cs) = ((is_alnum c \<or> (c = dash \<and> is_alnum d)) \<and> sep (d # cs))"


text \<open>The count a list of groups records for a tag: that of the first group with the tag.\<close>

fun count_of :: "tag_group list \<Rightarrow> string \<Rightarrow> nat" where
  "count_of [] t = 0"
| "count_of (g # gs) t = (if group_id g = t then count g else count_of gs t)"

section \<open>Unmodified names\<close>

text \<open>
  C6: when \<open>name\<close> is not among the modified paths, the hook returns the document as it
  received it, so the slug and every other field are unchanged, whatever else was
  modified and whatever the collection holds.
\<close>

theorem pre_save_unmodified:
  "''name'' \<notin> set modified \<Longrightarrow> pre_save db modified this = this"
  by (simp add: pre_save_def)

theorem pre_save_unmodified_witness:
  "''name'' \<notin> set [''description'', ''tags''] \<and>
   slug (pre_save [(new_Store 1 ''Wes'' [])\<lparr>slug := ''wes''\<rparr>] [''description'', ''tags'']
          ((new_Store 2 ''Wes'' [''coffee''])\<lparr>slug := ''wes''\<rparr>)) = ''wes''"
  using pre_save_unmodified [of "[''description'', ''tags'']"
      "[(new_Store 1 ''Wes'' [])\<lparr>slug := ''wes''\<rparr>]"
      "(new_Store 2 ''Wes'' [''coffee''])\<lparr>slug := ''wes''\<rparr>"]
  by (simp add: new_Store_def)

section \<open>The slug transform is idempotent\<close>

lemma toLowerCase_idem: "toLowerCase (toLowerCase c) = toLowerCase c"
  by (auto simp: toLowerCase_def is_upper_def Let_def)

lemma is_alnum_toLowerCase: "is_alnum (toLowerCase c) = is_alnum c"
  by (auto simp: toLowerCase_def is_upper_def is_alnum_def is_digit_def is_lower_def Let_def)

lemma toLowerCase_dash: "toLowerCase dash = dash"
  by (simp add: toLowerCase_def is_upper_def dash_def)

lemma not_alnum_dash: "\<not> is_alnum dash"
  by (simp add: is_alnum_def is_digit_def is_upper_def is_lower_def dash_def)

lemma not_space_dash: "\<not> is_space dash"
  by (simp add: is_space_def dash_def)

lemma not_space_alnum: "is_alnum c \<Longrightarrow> \<not> is_space c"
  by (auto simp: is_alnum_def is_digit_def is_upper_def is_lower_def is_space_def Let_def)

lemma collapse_head: "cs = [] \<or> is_alnum (hd cs) \<Longrightarrow> collapse cs = [] \<or> is_alnum (hd (collapse cs))"
  by (cases cs) auto

lemma sep_Cons_alnum: "is_alnum c \<Longrightarrow> sep cs \<Longrightarrow> sep (c # cs)"
  by (cases cs) auto

lemma sep_Cons_dash: "cs = [] \<or> is_alnum (hd cs) \<Longrightarrow> sep cs \<Longrightarrow> sep (dash # cs)"
  by (cases cs) auto

lemma dropWhile_head: "dropWhile P xs = [] \<or> \<not> P (hd (dropWhile P xs))"
  using hd_dropWhile by blast

lemma sep_collapse: "sep (collapse cs)"
proof (induction cs rule: collapse.induct)
  case 1
  show ?case by simp
next
  case (2 c cs)
  show ?case
  proof (cases "is_alnum c")
    case True
    with 2 show ?thesis by (simp add: sep_Cons_alnum)
  next
    case False
    let ?r = "dropWhile (\<lambda>x. \<not> is_alnum x) cs"
    have "?r = [] \<or> is_alnum (hd ?r)" using dropWhile_head [of "\<lambda>x. \<not> is_alnum x" cs] by simp
    then have "collapse ?r = [] \<or> is_alnum (hd (collapse ?r))" by (rule collapse_head)
    moreover have "sep (collapse ?r)" using 2 False by simp
    ultimately show ?thesis using False by (simp add: sep_Cons_dash)
  qed
qed

lemma sep_tl: "sep (c # cs) \<Longrightarrow> sep cs"
  by (cases cs) auto

lemma sep_suffix: "sep (xs @ ys) \<Longrightarrow> sep ys"
  by (induction xs) (auto dest: sep_tl)

lemma sep_prefix: "sep (xs @ ys) \<Longrightarrow> sep xs"
proof (induction xs rule: sep.induct)
  case 1 show ?case by simp
next
  case (2 c)
  then show ?case by (cases ys) auto
next
  case (3 c d cs)
  then show ?case by simp
qed

lemma sep_dropWhile: "sep xs \<Longrightarrow> sep (dropWhile P xs)"
  using sep_suffix [of "takeWhile P xs" "dropWhile P xs"] by simp

lemma rev_dropWhile_rev_prefix: "\<exists>ys. xs = rev (dropWhile P (rev xs)) @ ys"
proof -
  have "rev (takeWhile P (rev xs) @ dropWhile P (rev xs)) = xs" by simp
  then have "rev (dropWhile P (rev xs)) @ rev (takeWhile P (rev xs)) = xs" by (simp only: rev_append)
  then have "xs = rev (dropWhile P (rev xs)) @ rev (takeWhile P (rev xs))" by (rule sym)
  then show ?thesis by (rule exI)
qed

lemma sep_strip_end:
  assumes "sep xs"
  shows "sep (rev (dropWhile P (rev xs)))"
proof -
  obtain ys where "xs = rev (dropWhile P (rev xs)) @ ys"
    using rev_dropWhile_rev_prefix [of xs P] by blast
  with assms have "sep (rev (dropWhile P (rev xs)) @ ys)" by simp
  then show ?thesis by (rule sep_prefix)
qed

lemma sep_set: "sep xs \<Longrightarrow> c \<in> set xs \<Longrightarrow> is_alnum c \<or> c = dash"
  by (induction xs rule: sep.induct) auto

lemma last_strip_end: "rev (dropWhile P (rev xs)) = [] \<or> \<not> P (last (rev (dropWhile P (rev xs))))"
  using dropWhile_head [of P "rev xs"] by (auto simp: last_rev)

lemma collapse_fix: "sep xs \<Longrightarrow> xs = [] \<or> last xs \<noteq> dash \<Longrightarrow> collapse xs = xs"
proof (induction xs rule: sep.induct)
  case 1 show ?case by simp
next
  case (2 c)
  then have "is_alnum c" by auto
  then show ?case by simp
next
  case (3 c d cs)
  from "3.prems" have s: "sep (d # cs)" and l: "d # cs = [] \<or> last (d # cs) \<noteq> dash"
    and hd: "is_alnum c \<or> (c = dash \<and> is_alnum d)" by simp_all
  have ih: "collapse (d # cs) = d # cs" using s l by (rule "3.IH")
  show ?case
  proof (cases "is_alnum c")
    case True
    then have "collapse (c # d # cs) = c # collapse (d # cs)" by (simp only: collapse.simps if_True)
    with ih show ?thesis by (simp only:)
  next
    case False
    with hd have c: "c = dash" and d: "is_alnum d" by simp_all
    have "dropWhile (\<lambda>x. \<not> is_alnum x) (d # cs) = d # cs" using d by simp
    then have "collapse (c # d # cs) = dash # collapse (d # cs)"
      using False by (simp only: collapse.simps if_False)
    with ih c show ?thesis by (simp only:)
  qed
qed

lemma strip_end_fix: "xs = [] \<or> \<not> P (last xs) \<Longrightarrow> rev (dropWhile P (rev xs)) = xs"
  by (cases xs rule: rev_cases) auto

lemma strip_start_fix: "xs = [] \<or> \<not> P (hd xs) \<Longrightarrow> dropWhile P xs = xs"
  by (cases xs) auto

lemma hd_strip_end:
  assumes "xs = [] \<or> \<not> P (hd xs)"
  shows "rev (dropWhile Q (rev xs)) = [] \<or> \<not> P (hd (rev (dropWhile Q (rev xs))))"
proof (cases "rev (dropWhile Q (rev xs)) = []")
  case True
  then show ?thesis by simp
next
  case False
  obtain ys where e: "xs = rev (dropWhile Q (rev xs)) @ ys"
    using rev_dropWhile_rev_prefix [of xs Q] by blast
  from False have "hd (rev (dropWhile Q (rev xs)) @ ys) = hd (rev (dropWhile Q (rev xs)))"
    by (rule hd_append2)
  with e have h: "hd xs = hd (rev (dropWhile Q (rev xs)))" by simp
  from False e have "xs \<noteq> []" by auto
  with assms have "\<not> P (hd xs)" by simp
  with h show ?thesis by simp
qed


lemma set_strip_end: "set (rev (dropWhile P (rev xs))) \<subseteq> set xs"
  using set_dropWhileD [of _ P "rev xs"] by auto

lemma set_strip_start: "set (dropWhile P xs) \<subseteq> set xs"
  using set_dropWhileD [of _ P xs] by auto

lemma set_collapse: "c \<in> set (collapse cs) \<Longrightarrow> c = dash \<or> c \<in> set cs"
proof (induction cs rule: collapse.induct)
  case 1
  then show ?case by simp
next
  case (2 a cs)
  show ?case
  proof (cases "is_alnum a")
    case True
    with 2 show ?thesis by auto
  next
    case False
    with "2.prems" have "c = dash \<or> c \<in> set (collapse (dropWhile (\<lambda>x. \<not> is_alnum x) cs))"
      by simp
    with "2.IH"(2) [OF False] have "c = dash \<or> c \<in> set (dropWhile (\<lambda>x. \<not> is_alnum x) cs)"
      by blast
    then show ?thesis using set_strip_start [of "\<lambda>x. \<not> is_alnum x" cs] by auto
  qed
qed

lemma set_slugs: "c \<in> set (slugs s) \<Longrightarrow> c = dash \<or> c \<in> toLowerCase ` set s"
proof -
  assume "c \<in> set (slugs s)"
  then have "c \<in> set (collapse (trim (map toLowerCase s)))"
    unfolding slugs_def strip_dashes_def
    using set_strip_end set_strip_start by (meson subsetD)
  then have "c = dash \<or> c \<in> set (trim (map toLowerCase s))" by (rule set_collapse)
  then show ?thesis
    unfolding trim_def using set_strip_end set_strip_start by (metis subsetD set_map)
qed

lemma sep_slugs: "sep (slugs s)"
  unfolding slugs_def strip_dashes_def
  by (intro sep_strip_end sep_dropWhile sep_collapse)

lemma last_slugs: "slugs s = [] \<or> last (slugs s) \<noteq> dash"
  unfolding slugs_def strip_dashes_def by (rule last_strip_end)

lemma hd_slugs: "slugs s = [] \<or> hd (slugs s) \<noteq> dash"
  unfolding slugs_def strip_dashes_def
  by (rule hd_strip_end) (rule dropWhile_head)

lemma slugs_literal: "c \<in> set (slugs s) \<Longrightarrow> is_alnum c \<or> c = dash"
  using sep_slugs by (rule sep_set)

lemma trim_fix: "\<forall>c \<in> set xs. \<not> is_space c \<Longrightarrow> trim xs = xs"
proof -
  assume a: "\<forall>c \<in> set xs. \<not> is_space c"
  then have "xs = [] \<or> \<not> is_space (hd xs)" by (cases xs) auto
  then have 1: "dropWhile is_space xs = xs" by (rule strip_start_fix)
  from a have "xs = [] \<or> \<not> is_space (last xs)" by (cases xs rule: rev_cases) auto
  then have "rev (dropWhile is_space (rev xs)) = xs" by (rule strip_end_fix)
  with 1 show ?thesis by (simp add: trim_def)
qed

text \<open>
  C9: the slug transform is idempotent: applying it to its own result gives that result
  again, for every string.
\<close>

theorem slugs_idempotent: "slugs (slugs s) = slugs s"
proof -
  let ?t = "slugs s"
  have lower: "map toLowerCase ?t = ?t"
  proof -
    have "\<forall>c \<in> set ?t. toLowerCase c = c"
    proof
      fix c assume "c \<in> set ?t"
      then have "c = dash \<or> c \<in> toLowerCase ` set s" by (rule set_slugs)
      then show "toLowerCase c = c" by (auto simp: toLowerCase_dash toLowerCase_idem)
    qed
    then show ?thesis by (simp add: map_idI)
  qed
  have "\<forall>c \<in> set ?t. \<not> is_space c"
    using sep_set [OF sep_slugs [of s]] not_space_dash not_space_alnum by blast
  then have tr: "trim ?t = ?t" by (rule trim_fix)
  have co: "collapse ?t = ?t" using sep_slugs last_slugs by (rule collapse_fix)
  have st: "strip_dashes ?t = ?t"
  proof -
    have "dropWhile (\<lambda>c. c = dash) ?t = ?t" using hd_slugs [of s] by (rule strip_start_fix)
    moreover have "rev (dropWhile (\<lambda>c. c = dash) (rev ?t)) = ?t"
      using last_slugs [of s] by (rule strip_end_fix)
    ultimately show ?thesis by (simp add: strip_dashes_def)
  qed
  have "slugs ?t = strip_dashes (collapse (trim (map toLowerCase ?t)))" by (simp only: slugs_def)
  also have "\<dots> = ?t" by (simp only: lower tr co st)
  finally show ?thesis .
qed

section \<open>Slug assignment\<close>

subsection \<open>The pattern and the decimal suffix\<close>

lemma match_ci_append: "match_ci b (b @ r) = Some r"
  by (induction b) auto

lemma slugRegEx_base: "slugRegEx b b"
  using match_ci_append [of b "[]"] by (simp add: slugRegEx_def)









lemma pre_save_slug:
  "''name'' \<in> set modified \<Longrightarrow>
   slug (pre_save db modified this) =
     (if find_slug db (slugs (name this)) = [] then slugs (name this)
      else slugs (name this) @ ''-'' @ show_nat (length (find_slug db (slugs (name this))) + 1))"
  by (simp add: pre_save_def Let_def)

lemma pre_save_id: "store_id (pre_save db modified this) = store_id this"
  by (simp add: pre_save_def Let_def)






lemma mem_dropWhile: "x \<in> set xs \<Longrightarrow> \<not> P x \<Longrightarrow> x \<in> set (dropWhile P xs)"
  by (induction xs) auto

lemma mem_strip_end: "x \<in> set xs \<Longrightarrow> \<not> P x \<Longrightarrow> x \<in> set (rev (dropWhile P (rev xs)))"
  using mem_dropWhile [of x "rev xs" P] by simp

lemma mem_collapse: "x \<in> set cs \<Longrightarrow> is_alnum x \<Longrightarrow> x \<in> set (collapse cs)"
proof (induction cs rule: collapse.induct)
  case 1
  then show ?case by simp
next
  case (2 a cs)
  show ?case
  proof (cases "is_alnum a")
    case True
    with 2 show ?thesis by auto
  next
    case False
    with "2.prems" have "x \<in> set cs" by auto
    with "2.prems"(2) have "x \<in> set (dropWhile (\<lambda>x. \<not> is_alnum x) cs)"
      by (simp add: mem_dropWhile)
    with "2.IH"(2) [OF False] "2.prems"(2) have "x \<in> set (collapse (dropWhile (\<lambda>x. \<not> is_alnum x) cs))"
      by simp
    with False show ?thesis by simp
  qed
qed

lemma slugs_nonempty:
  assumes "list_ex is_alnum s"
  shows "slugs s \<noteq> []"
proof -
  from assms obtain c where c: "c \<in> set s" and a: "is_alnum c" by (auto simp: list_ex_iff)
  let ?c = "toLowerCase c"
  have al: "is_alnum ?c" using a by (simp add: is_alnum_toLowerCase)
  have "?c \<in> set (map toLowerCase s)" using c by simp
  then have "?c \<in> set (trim (map toLowerCase s))"
    unfolding trim_def using al by (intro mem_strip_end mem_dropWhile) (auto dest: not_space_alnum)
  then have "?c \<in> set (collapse (trim (map toLowerCase s)))" using al by (rule mem_collapse)
  moreover have "?c \<noteq> dash" using al not_alnum_dash by auto
  ultimately have "?c \<in> set (slugs s)"
    unfolding slugs_def strip_dashes_def by (intro mem_strip_end mem_dropWhile) auto
  then show ?thesis by auto
qed



subsection \<open>The assigned slug\<close>






text \<open>
  C1, as amended: after a save that modified the name, the slug computed by the hook
  equals the slug of another stored store exactly when the query found \<open>N > 0\<close> stores
  and another store already carries the base followed by a dash and \<open>N + 1\<close>. In every
  other case, and always when the query found nothing, the slug differs from the slug of
  every other store.
\<close>

theorem pre_save_collides_iff:
  assumes "''name'' \<in> set modified"
  shows "collides db (pre_save db modified this) \<longleftrightarrow>
           find_slug db (slugs (name this)) \<noteq> [] \<and>
           list_ex (\<lambda>s. store_id s \<noteq> store_id this \<and>
                        slug s = slugs (name this) @ ''-'' @
                                   show_nat (length (find_slug db (slugs (name this))) + 1)) db"
proof (cases "find_slug db (slugs (name this)) = []")
  case True
  then have "\<forall>s \<in> set db. \<not> slugRegEx (slugs (name this)) (slug s)"
    by (simp add: find_slug_def filter_empty_conv)
  then have "\<forall>s \<in> set db. slug s \<noteq> slugs (name this)"
    using slugRegEx_base by metis
  with True assms show ?thesis
    by (auto simp: collides_def list_ex_iff pre_save_slug)
next
  case False
  with assms show ?thesis
    by (simp add: collides_def list_ex_iff pre_save_slug pre_save_id)
qed

theorem pre_save_collides_iff_witness:
  "''name'' \<in> set [''name''] \<and>
   \<not> collides (save [] [''name''] (new_Store 1 ''Wes'' []))
       (pre_save (save [] [''name''] (new_Store 1 ''Wes'' [])) [''name''] (new_Store 2 ''wes'' []))"
proof -
  have m: "''name'' \<in> set [''name'']" by simp
  have "\<not> list_ex (\<lambda>s. store_id s \<noteq> store_id (new_Store 2 ''wes'' []) \<and>
            slug s = slugs (name (new_Store 2 ''wes'' [])) @ ''-'' @
              show_nat (length (find_slug (save [] [''name''] (new_Store 1 ''Wes'' []))
                (slugs (name (new_Store 2 ''wes'' [])))) + 1))
          (save [] [''name''] (new_Store 1 ''Wes'' []))"
    by code_simp
  with m pre_save_collides_iff [OF m, of "save [] [''name''] (new_Store 1 ''Wes'' [])" "new_Store 2 ''wes'' []"]
  show ?thesis by blast
qed

text \<open>
  The claim as first stated fails: after a store named \<open>Wes 2\<close> is saved into an empty
  collection, saving a new store named \<open>Wes\<close> gives it the slug \<open>wes-2\<close>, which the first
  store has.
\<close>

theorem colliding_slug_counterexample:
  "collides (save [] [''name''] (new_Store 1 ''Wes 2'' []))
     (pre_save (save [] [''name''] (new_Store 1 ''Wes 2'' [])) [''name''] (new_Store 2 ''Wes'' []))"
  by code_simp

text \<open>
  C7, as amended: when the name was modified and holds at least one ASCII letter or
  digit, the slug the hook assigns is not empty.
\<close>

theorem pre_save_slug_nonempty:
  assumes "''name'' \<in> set modified" and "list_ex is_alnum (name this)"
  shows "slug (pre_save db modified this) \<noteq> []"
  using assms slugs_nonempty [of "name this"] by (simp add: pre_save_slug)

theorem pre_save_slug_nonempty_witness:
  "''name'' \<in> set [''name''] \<and> list_ex is_alnum (name (new_Store 1 ''Wes'' [])) \<and>
   slug (pre_save [] [''name''] (new_Store 1 ''Wes'' [])) \<noteq> []"
proof -
  have m: "''name'' \<in> set [''name'']" by simp
  have a: "list_ex is_alnum (name (new_Store 1 ''Wes'' []))" by code_simp
  from m a pre_save_slug_nonempty [OF m a, of "[]"] show ?thesis by simp
qed

text \<open>
  The claim as first stated fails: the name \<open>!\<close> is not empty, and in an empty collection
  its slug is the empty string.
\<close>

theorem empty_slug_counterexample:
  "name (new_Store 1 ''!'' []) \<noteq> [] \<and> slug (pre_save [] [''name''] (new_Store 1 ''!'' [])) = []"
  by code_simp

subsection \<open>The collision query\<close>

text \<open>
  C3: the query does not leave out the store being saved, and its pattern accepts the
  base followed by a bare dash. A stored store with slug \<open>wes\<close>, saved again with its name
  changed to \<open>WES\<close>, is returned by the query, where the spec's query returns nothing, and
  the hook renames its slug to \<open>wes-2\<close>; the slug \<open>wes-\<close> matches the pattern for \<open>wes\<close>,
  which the spec's pattern rejects.
\<close>

theorem find_slug_counts_saved_store:
  "save [] [''name''] (new_Store 1 ''Wes'' [])
     = [\<lparr>store_id = 1, name = ''Wes'', slug = ''wes'', description = [], tags = [], photo = [], author = 0\<rparr>] \<and>
   find_slug [\<lparr>store_id = 1, name = ''Wes'', slug = ''wes'', description = [], tags = [], photo = [], author = 0\<rparr>]
       (slugs ''WES'')
     = [\<lparr>store_id = 1, name = ''Wes'', slug = ''wes'', description = [], tags = [], photo = [], author = 0\<rparr>] \<and>
   spec_find_slug [\<lparr>store_id = 1, name = ''Wes'', slug = ''wes'', description = [], tags = [], photo = [], author = 0\<rparr>]
       \<lparr>store_id = 1, name = ''WES'', slug = ''wes'', description = [], tags = [], photo = [], author = 0\<rparr>
       (slugs ''WES'')
     = [] \<and>
   slug (pre_save [\<lparr>store_id = 1, name = ''Wes'', slug = ''wes'', description = [], tags = [], photo = [], author = 0\<rparr>]
           [''name'']
           \<lparr>store_id = 1, name = ''WES'', slug = ''wes'', description = [], tags = [], photo = [], author = 0\<rparr>)
     = ''wes-2'' \<and>
   slugRegEx ''wes'' ''wes-'' \<and> \<not> spec_pattern ''wes'' ''wes-''"
  by code_simp

section \<open>Aggregations: proofs\<close>

subsection \<open>Sorting in descending order\<close>

lemma set_insert_desc: "set (insert_desc f x ys) = insert x (set ys)"
  by (induction ys) auto

lemma length_insert_desc: "length (insert_desc f x ys) = Suc (length ys)"
  by (induction ys) auto

lemma count_list_insert_desc: "count_list (insert_desc f x ys) z = count_list (x # ys) z"
  by (induction ys) auto

lemma sorted_insert_desc:
  "sorted_wrt (\<lambda>u v. f v \<le> f u) ys \<Longrightarrow> sorted_wrt (\<lambda>u v. f v \<le> f u) (insert_desc f x ys)"
  by (induction ys) (auto simp: set_insert_desc)

lemma distinct_insert_desc:
  "distinct (map g (insert_desc f x ys)) = distinct (map g (x # ys))"
  by (induction ys) (auto simp: set_insert_desc)

lemma set_sort_desc: "set (sort_desc f xs) = set xs"
  by (induction xs) (auto simp: sort_desc_def set_insert_desc)

lemma length_sort_desc: "length (sort_desc f xs) = length xs"
  by (induction xs) (auto simp: sort_desc_def length_insert_desc)

lemma count_list_sort_desc: "count_list (sort_desc f xs) z = count_list xs z"
  by (induction xs) (auto simp: sort_desc_def count_list_insert_desc)

lemma sorted_sort_desc: "sorted_wrt (\<lambda>u v. f v \<le> f u) (sort_desc f xs)"
  by (induction xs) (auto simp: sort_desc_def sorted_insert_desc)

lemma distinct_sort_desc: "distinct (map g (sort_desc f xs)) = distinct (map g xs)"
proof (induction xs)
  case Nil
  show ?case by (simp add: sort_desc_def)
next
  case (Cons x xs)
  have "sort_desc f (x # xs) = insert_desc f x (sort_desc f xs)" by (simp add: sort_desc_def)
  then have "distinct (map g (sort_desc f (x # xs))) = distinct (map g (x # sort_desc f xs))"
    by (simp only: distinct_insert_desc)
  with Cons show ?case by (simp add: set_sort_desc)
qed

lemma ids_group_add:
  "map group_id (group_add t gs) =
     (if t \<in> set (map group_id gs) then map group_id gs else map group_id gs @ [t])"
  by (induction gs) auto

lemma count_of_group_add:
  "count_of (group_add t gs) u = count_of gs u + (if t = u then 1 else 0)"
  by (induction gs) auto

lemma distinct_group_add:
  "distinct (map group_id gs) \<Longrightarrow> distinct (map group_id (group_add t gs))"
  by (simp add: ids_group_add)

lemma set_ids_group_add: "set (map group_id (group_add t gs)) = insert t (set (map group_id gs))"
  by (auto simp: ids_group_add)

lemma foldl_group_ids:
  "set (map group_id (foldl (\<lambda>gs r. group_add (snd r) gs) gs rows))
     = set (map group_id gs) \<union> snd ` set rows"
proof (induction rows arbitrary: gs)
  case Nil
  show ?case by simp
next
  case (Cons r rows)
  show ?case by (simp add: Cons.IH set_ids_group_add del: set_map)
qed

lemma foldl_group_distinct:
  "distinct (map group_id gs) \<Longrightarrow>
   distinct (map group_id (foldl (\<lambda>gs r. group_add (snd r) gs) gs rows))"
  by (induction rows arbitrary: gs) (simp_all add: distinct_group_add)

lemma foldl_group_count:
  "count_of (foldl (\<lambda>gs r. group_add (snd r) gs) gs rows) u
     = count_of gs u + count_list (map snd rows) u"
  by (induction rows arbitrary: gs) (simp_all add: count_of_group_add)

lemma count_of_member:
  "distinct (map group_id gs) \<Longrightarrow> g \<in> set gs \<Longrightarrow> count g = count_of gs (group_id g)"
  by (induction gs) auto

lemma snd_unwind_tags: "map snd (unwind_tags db) = concat (map tags db)"
  by (induction db) (simp_all add: unwind_tags_def comp_def)

lemma count_list_distinct: "distinct xs \<Longrightarrow> count_list xs t = (if t \<in> set xs then 1 else 0)"
  by (induction xs) auto

lemma count_list_append: "count_list (xs @ ys) t = count_list xs t + count_list ys t"
  by (induction xs) auto

lemma count_list_tags:
  "\<forall>s \<in> set db. distinct (tags s) \<Longrightarrow> count_list (concat (map tags db)) t = stores_with_tag db t"
  by (induction db) (auto simp: stores_with_tag_def count_list_append count_list_distinct)

subsection \<open>getTagsList\<close>

lemma group_by_tag_ids: "set (map group_id (group_by_tag rows)) = snd ` set rows"
  using foldl_group_ids [of "[]" rows] by (simp add: group_by_tag_def)

lemma group_by_tag_distinct: "distinct (map group_id (group_by_tag rows))"
  using foldl_group_distinct [of "[]" rows] by (simp add: group_by_tag_def)

lemma group_by_tag_count:
  assumes "g \<in> set (group_by_tag rows)"
  shows "count g = count_list (map snd rows) (group_id g)"
proof -
  have "count g = count_of (group_by_tag rows) (group_id g)"
    using group_by_tag_distinct assms by (rule count_of_member)
  also have "\<dots> = count_list (map snd rows) (group_id g)"
    using foldl_group_count [of "[]" rows "group_id g"] by (simp add: group_by_tag_def)
  finally show ?thesis .
qed

lemma getTagsList_example:
  assumes "a \<noteq> b"
  shows "getTagsList [s\<lparr>tags := [a, b]\<rparr>, s'\<lparr>tags := [b]\<rparr>]
           = [\<lparr>group_id = b, count = 2\<rparr>, \<lparr>group_id = a, count = 1\<rparr>]"
  using assms by (simp add: getTagsList_def unwind_tags_def group_by_tag_def sort_desc_def)

text \<open>
  C2, as amended: \<open>getTagsList\<close> returns one group for each distinct tag value. A group's
  count is the number of times its tag occurs in the \<open>tags\<close> lists of the stores, which
  is the number of stores carrying the tag whenever no store lists a tag twice. The
  groups are in descending order of count, and on the stores with tags \<open>[a, b]\<close> and
  \<open>[b]\<close>, for \<open>a \<noteq> b\<close>, the result is \<open>b\<close> with count 2 followed by \<open>a\<close> with count 1.
\<close>

theorem getTagsList_groups:
  "distinct (map group_id (getTagsList db)) \<and>
   set (map group_id (getTagsList db)) = (\<Union>s \<in> set db. set (tags s)) \<and>
   (\<forall>g \<in> set (getTagsList db). count g = count_list (concat (map tags db)) (group_id g)) \<and>
   ((\<forall>s \<in> set db. distinct (tags s)) \<longrightarrow>
      (\<forall>g \<in> set (getTagsList db). count g = stores_with_tag db (group_id g))) \<and>
   sorted_wrt (\<lambda>g h. count h \<le> count g) (getTagsList db) \<and>
   (a \<noteq> b \<longrightarrow>
      getTagsList [s\<lparr>tags := [a, b]\<rparr>, s'\<lparr>tags := [b]\<rparr>]
        = [\<lparr>group_id = b, count = 2\<rparr>, \<lparr>group_id = a, count = 1\<rparr>])"
proof -
  let ?rows = "unwind_tags db"
  have d: "distinct (map group_id (getTagsList db))"
    by (simp only: getTagsList_def distinct_sort_desc group_by_tag_distinct)
  have "set (map group_id (getTagsList db)) = snd ` set ?rows"
    using group_by_tag_ids [of ?rows] by (simp add: getTagsList_def set_sort_desc)
  also have "\<dots> = set (map snd ?rows)" by simp
  also have "\<dots> = (\<Union>s \<in> set db. set (tags s))" by (simp only: snd_unwind_tags) simp
  finally have i: "set (map group_id (getTagsList db)) = (\<Union>s \<in> set db. set (tags s))" .
  have c: "\<forall>g \<in> set (getTagsList db). count g = count_list (concat (map tags db)) (group_id g)"
  proof
    fix g assume "g \<in> set (getTagsList db)"
    then have "g \<in> set (group_by_tag ?rows)" by (simp add: getTagsList_def set_sort_desc)
    then have "count g = count_list (map snd ?rows) (group_id g)" by (rule group_by_tag_count)
    then show "count g = count_list (concat (map tags db)) (group_id g)"
      by (simp only: snd_unwind_tags)
  qed
  have n: "(\<forall>s \<in> set db. distinct (tags s)) \<longrightarrow>
      (\<forall>g \<in> set (getTagsList db). count g = stores_with_tag db (group_id g))"
    using c by (simp add: count_list_tags)
  have o: "sorted_wrt (\<lambda>g h. count h \<le> count g) (getTagsList db)"
    unfolding getTagsList_def by (rule sorted_sort_desc)
  have e: "a \<noteq> b \<longrightarrow>
      getTagsList [s\<lparr>tags := [a, b]\<rparr>, s'\<lparr>tags := [b]\<rparr>]
        = [\<lparr>group_id = b, count = 2\<rparr>, \<lparr>group_id = a, count = 1\<rparr>]"
    using getTagsList_example by blast
  from d i c n o e show ?thesis by (intro conjI)
qed

theorem getTagsList_groups_witness:
  "list_all (\<lambda>s. distinct (tags s)) [new_Store 1 ''x'' [''a'', ''b''], new_Store 2 ''y'' [''b'']] \<and>
   ''a'' \<noteq> ''b'' \<and>
   getTagsList [new_Store 1 ''x'' [''a'', ''b''], new_Store 2 ''y'' [''b'']]
     = [\<lparr>group_id = ''b'', count = 2\<rparr>, \<lparr>group_id = ''a'', count = 1\<rparr>] \<and>
   list_all (\<lambda>g. count g = stores_with_tag [new_Store 1 ''x'' [''a'', ''b''], new_Store 2 ''y'' [''b'']] (group_id g))
     (getTagsList [new_Store 1 ''x'' [''a'', ''b''], new_Store 2 ''y'' [''b'']])"
proof -
  let ?db = "[new_Store 1 ''x'' [''a'', ''b''], new_Store 2 ''y'' [''b'']]"
  have h: "\<forall>s \<in> set ?db. distinct (tags s)" by (simp add: new_Store_def)
  have ab: "''a'' \<noteq> ''b''" by simp
  have db: "?db = [(new_Store 1 ''x'' [])\<lparr>tags := [''a'', ''b'']\<rparr>, (new_Store 2 ''y'' [])\<lparr>tags := [''b'']\<rparr>]"
    by (simp add: new_Store_def)
  note t = getTagsList_groups [of ?db "''a''" "''b''" "new_Store 1 ''x'' []" "new_Store 2 ''y'' []"]
  from t ab db have 1: "getTagsList ?db = [\<lparr>group_id = ''b'', count = 2\<rparr>, \<lparr>group_id = ''a'', count = 1\<rparr>]"
    by simp
  from t h have "\<forall>g \<in> set (getTagsList ?db). count g = stores_with_tag ?db (group_id g)" by blast
  then have 2: "list_all (\<lambda>g. count g = stores_with_tag ?db (group_id g)) (getTagsList ?db)"
    by (simp only: list_all_iff)
  from h have 0: "list_all (\<lambda>s. distinct (tags s)) ?db" by (simp only: list_all_iff)
  from 0 ab 1 2 show ?thesis by (intro conjI)
qed

text \<open>
  The claim as first stated fails: a single store that lists the tag \<open>a\<close> twice gives the
  group of \<open>a\<close> the count 2, while one store carries the tag.
\<close>

theorem repeated_tag_counterexample:
  "getTagsList [new_Store 1 ''x'' [''a'', ''a'']] = [\<lparr>group_id = ''a'', count = 2\<rparr>] \<and>
   stores_with_tag [new_Store 1 ''x'' [''a'', ''a'']] ''a'' = 1"
  by code_simp

subsection \<open>getTopStores\<close>

lemma matched_rows:
  "map project (match_second_review (lookup_reviews rs db))
     = map (top_entry rs) (filter (has_two_reviews rs) db)"
  by (induction db)
     (auto simp: match_second_review_def lookup_reviews_def top_entry_def has_two_reviews_def)

lemma rankedStores_count:
  "count_list (rankedStores db rs) z
     = count_list (map (top_entry rs) (filter (has_two_reviews rs) db)) z"
  by (simp only: rankedStores_def count_list_sort_desc matched_rows)

lemma set_rankedStores:
  "set (rankedStores db rs) = top_entry rs ` {s \<in> set db. has_two_reviews rs s}"
  by (simp add: rankedStores_def set_sort_desc matched_rows)

lemma length_rankedStores:
  "length (rankedStores db rs) = length (filter (has_two_reviews rs) db)"
  by (simp add: rankedStores_def length_sort_desc matched_rows)

lemma averageRating_top_entry:
  "has_two_reviews rs s \<Longrightarrow>
   averageRating (top_entry rs s)
     = Some (sum_list (map rating (reviews_of rs (store_id s)))
             / of_nat (length (reviews_of rs (store_id s))))"
  by (auto simp: top_entry_def project_def avg_def has_two_reviews_def)

text \<open>
  C5, as amended: \<open>getTopStores\<close> returns the first 10 entries of the ranking of the
  stores that have at least 2 reviews, and all of them when no more than 10 stores
  qualify. The ranking is a rearrangement of the projections of exactly those stores, in
  descending order of \<open>averageRating\<close>; each projection carries the store's identifier,
  photo, name and slug, its joined reviews, and as \<open>averageRating\<close> the arithmetic mean of
  their ratings. The result has at most 10 entries, each of a store with at least 2
  reviews.
\<close>

theorem getTopStores_top_ten:
  "getTopStores db rs = take 10 (rankedStores db rs) \<and>
   (\<forall>z. count_list (rankedStores db rs) z
          = count_list (map (top_entry rs) (filter (has_two_reviews rs) db)) z) \<and>
   sorted_wrt (\<lambda>x y. averageRating y \<le> averageRating x) (rankedStores db rs) \<and>
   sorted_wrt (\<lambda>x y. averageRating y \<le> averageRating x) (getTopStores db rs) \<and>
   length (getTopStores db rs) \<le> 10 \<and>
   (\<forall>e \<in> set (getTopStores db rs). \<exists>s \<in> set db. has_two_reviews rs s \<and> e = top_entry rs s) \<and>
   (length (filter (has_two_reviews rs) db) \<le> 10 \<longrightarrow>
      set (getTopStores db rs) = top_entry rs ` {s \<in> set db. has_two_reviews rs s}) \<and>
   (has_two_reviews rs s \<longrightarrow>
      averageRating (top_entry rs s)
        = Some (sum_list (map rating (reviews_of rs (store_id s)))
                / of_nat (length (reviews_of rs (store_id s))))) \<and>
   ts_id (top_entry rs s) = store_id s \<and> ts_photo (top_entry rs s) = photo s \<and>
   ts_name (top_entry rs s) = name s \<and> ts_slug (top_entry rs s) = slug s \<and>
   ts_reviews (top_entry rs s) = reviews_of rs (store_id s)"
proof -
  have 1: "getTopStores db rs = take 10 (rankedStores db rs)" by (simp add: getTopStores_def)
  have 2: "\<forall>z. count_list (rankedStores db rs) z
          = count_list (map (top_entry rs) (filter (has_two_reviews rs) db)) z"
    by (simp only: rankedStores_count) simp
  have 3: "sorted_wrt (\<lambda>x y. averageRating y \<le> averageRating x) (rankedStores db rs)"
    unfolding rankedStores_def by (rule sorted_sort_desc)
  then have 4: "sorted_wrt (\<lambda>x y. averageRating y \<le> averageRating x) (getTopStores db rs)"
    unfolding getTopStores_def by (rule sorted_wrt_take)
  have 5: "length (getTopStores db rs) \<le> 10" by (simp add: getTopStores_def)
  have 6: "\<forall>e \<in> set (getTopStores db rs). \<exists>s \<in> set db. has_two_reviews rs s \<and> e = top_entry rs s"
  proof
    fix e assume "e \<in> set (getTopStores db rs)"
    then have "e \<in> set (rankedStores db rs)" unfolding getTopStores_def by (rule in_set_takeD)
    then show "\<exists>s \<in> set db. has_two_reviews rs s \<and> e = top_entry rs s"
      by (auto simp: set_rankedStores)
  qed
  have 7: "length (filter (has_two_reviews rs) db) \<le> 10 \<longrightarrow>
      set (getTopStores db rs) = top_entry rs ` {s \<in> set db. has_two_reviews rs s}"
    by (simp add: getTopStores_def length_rankedStores set_rankedStores)
  have 8: "has_two_reviews rs s \<longrightarrow>
      averageRating (top_entry rs s)
        = Some (sum_list (map rating (reviews_of rs (store_id s)))
                / of_nat (length (reviews_of rs (store_id s))))"
    using averageRating_top_entry by blast
  have 9: "ts_id (top_entry rs s) = store_id s \<and> ts_photo (top_entry rs s) = photo s \<and>
   ts_name (top_entry rs s) = name s \<and> ts_slug (top_entry rs s) = slug s \<and>
   ts_reviews (top_entry rs s) = reviews_of rs (store_id s)"
    by (simp add: top_entry_def project_def)
  from 1 2 3 4 5 6 7 8 9 show ?thesis by (intro conjI) simp_all
qed

theorem getTopStores_top_ten_witness:
  "has_two_reviews example_reviews (new_Store 1 ''X'' []) \<and>
   length (filter (has_two_reviews example_reviews) example_stores) \<le> 10 \<and>
   averageRating (top_entry example_reviews (new_Store 1 ''X'' [])) = Some (9 / 2) \<and>
   map ts_id (getTopStores example_stores example_reviews) = [1, 2] \<and>
   map averageRating (getTopStores example_stores example_reviews) = [Some (9 / 2), Some 3] \<and>
   length (getTopStores example_stores example_reviews) \<le> 10"
proof -
  note t = getTopStores_top_ten [of example_stores example_reviews "new_Store 1 ''X'' []"]
  have h: "has_two_reviews example_reviews (new_Store 1 ''X'' [])" by code_simp
  have l: "length (filter (has_two_reviews example_reviews) example_stores) \<le> 10" by code_simp
  have v: "Some (sum_list (map rating (reviews_of example_reviews (store_id (new_Store 1 ''X'' []))))
                / of_nat (length (reviews_of example_reviews (store_id (new_Store 1 ''X'' [])))))
            = Some (9 / 2 :: rat)"
    by code_simp
  from t h v have a: "averageRating (top_entry example_reviews (new_Store 1 ''X'' [])) = Some (9 / 2)"
    by simp
  have i: "map ts_id (getTopStores example_stores example_reviews) = [1, 2]" by code_simp
  have r: "map averageRating (getTopStores example_stores example_reviews) = [Some (9 / 2), Some 3]"
    by code_simp
  from t have b: "length (getTopStores example_stores example_reviews) \<le> 10" by blast
  from h l a i r b show ?thesis by (intro conjI)
qed

text \<open>
  The claim as first stated fails: of eleven stores with two reviews each, ten are
  returned.
\<close>

theorem eleven_stores_counterexample:
  "list_all (has_two_reviews eleven_reviews) eleven_stores \<and>
   distinct (map store_id eleven_stores) \<and>
   length eleven_stores = 11 \<and>
   length (getTopStores eleven_stores eleven_reviews) = 10"
  by code_simp

section \<open>Read-time population: proofs\<close>

lemma run_hooks: "fold (\<lambda>hook acc. hook acc) (pre_hooks opn) q = autopopulate q"
  by (cases opn) (simp_all add: pre_hooks_def)

lemma exec_query_eq:
  "exec_query db rs q =
     map (\<lambda>s. \<lparr>doc = s, reviews = Some (reviews_of rs (store_id s))\<rparr>)
       (case operation q of
          Find \<Rightarrow> filter (conditions q) db
        | FindOne \<Rightarrow> take 1 (filter (conditions q) db))"
  by (cases "operation q")
     (simp_all add: exec_query_def run_hooks autopopulate_def virtual_reviews_def Let_def)

text \<open>
  C8: a \<open>find\<close> returns every store that meets the conditions and a \<open>findOne\<close> the first
  of them, and each returned store has in its \<open>reviews\<close> field the reviews whose \<open>store\<close> is
  its identifier, whatever populate paths the caller asked for.
\<close>

theorem exec_query_attaches_reviews:
  "map doc (exec_query db rs q) =
     (case operation q of
        Find \<Rightarrow> filter (conditions q) db
      | FindOne \<Rightarrow> take 1 (filter (conditions q) db)) \<and>
   (\<forall>f \<in> set (exec_query db rs q). reviews f = Some (reviews_of rs (store_id (doc f))))"
  by (auto simp: exec_query_eq comp_def)

theorem exec_query_attaches_reviews_witness:
  "exec_query example_stores example_reviews
      \<lparr>operation = FindOne, conditions = (\<lambda>s. store_id s = 1), populate_paths = []\<rparr>
     = [\<lparr>doc = new_Store 1 ''X'' [],
         reviews = Some [\<lparr>review_store = 1, rating = 4\<rparr>, \<lparr>review_store = 1, rating = 5\<rparr>]\<rparr>] \<and>
   map reviews (exec_query example_stores example_reviews
      \<lparr>operation = Find, conditions = (\<lambda>s. True), populate_paths = []\<rparr>)
     = [Some [\<lparr>review_store = 1, rating = 4\<rparr>, \<lparr>review_store = 1, rating = 5\<rparr>],
        Some [\<lparr>review_store = 2, rating = 3\<rparr>, \<lparr>review_store = 2, rating = 3\<rparr>,
              \<lparr>review_store = 2, rating = 3\<rparr>],
        Some [\<lparr>review_store = 3, rating = 5\<rparr>]] \<and>
   list_all (\<lambda>f. reviews f = Some (reviews_of example_reviews (store_id (doc f))))
     (exec_query example_stores example_reviews
        \<lparr>operation = Find, conditions = (\<lambda>s. True), populate_paths = []\<rparr>)"
proof -
  have 1: "exec_query example_stores example_reviews
      \<lparr>operation = FindOne, conditions = (\<lambda>s. store_id s = 1), populate_paths = []\<rparr>
     = [\<lparr>doc = new_Store 1 ''X'' [],
         reviews = Some [\<lparr>review_store = 1, rating = 4\<rparr>, \<lparr>review_store = 1, rating = 5\<rparr>]\<rparr>]"
    by code_simp
  have 2: "map reviews (exec_query example_stores example_reviews
      \<lparr>operation = Find, conditions = (\<lambda>s. True), populate_paths = []\<rparr>)
     = [Some [\<lparr>review_store = 1, rating = 4\<rparr>, \<lparr>review_store = 1, rating = 5\<rparr>],
        Some [\<lparr>review_store = 2, rating = 3\<rparr>, \<lparr>review_store = 2, rating = 3\<rparr>,
              \<lparr>review_store = 2, rating = 3\<rparr>],
        Some [\<lparr>review_store = 3, rating = 5\<rparr>]]"
    by code_simp
  from exec_query_attaches_reviews [of example_stores example_reviews
      "\<lparr>operation = Find, conditions = (\<lambda>s. True), populate_paths = []\<rparr>"]
  have "\<forall>f \<in> set (exec_query example_stores example_reviews
        \<lparr>operation = Find, conditions = (\<lambda>s. True), populate_paths = []\<rparr>).
      reviews f = Some (reviews_of example_reviews (store_id (doc f)))"
    by (rule conjunct2)
  then have 3: "list_all (\<lambda>f. reviews f = Some (reviews_of example_reviews (store_id (doc f))))
     (exec_query example_stores example_reviews
        \<lparr>operation = Find, conditions = (\<lambda>s. True), populate_paths = []\<rparr>)"
    by (simp only: list_all_iff)
  from 1 2 3 show ?thesis by (intro conjI)
qed

section \<open>Mail: proofs\<close>

text \<open>
  C10: whenever \<open>send\<close> builds its mail, the sender is the constant
  \<open>Bill Schupp <noreply@bill.com>\<close>, whatever the options hold; the subject and the
  recipient are those of the options, the HTML body is the rendered template and the
  text body is derived from it, and this mail is what the transport receives.
\<close>

theorem mailOptions_from:
  assumes "mailOptions dirname renderFile juice fromString opts = Inr m"
  shows "mail_from m = ''Bill Schupp <noreply@bill.com>'' \<and>
         mail_subject m = subject opts \<and>
         (\<exists>u. user opts = Some u \<and> mail_to m = email u) \<and>
         generateHTML dirname renderFile juice (filename opts) opts = Inr (mail_html m) \<and>
         mail_text m = fromString (mail_html m) \<and>
         send dirname renderFile juice fromString sendMail opts = sendMail m"
  using assms
  by (auto simp: mailOptions_def send_def Let_def split: sum.splits option.splits)

theorem mailOptions_from_witness:
  "mailOptions ''/app/handlers'' example_renderFile id id example_options
     = Inr \<lparr>mail_from = ''Bill Schupp <noreply@bill.com>'',
            mail_to = Some ''randy@example.com'',
            mail_subject = Some ''Password Reset'',
            mail_html = ''<p>/app/handlers/../views/email/password-reset.pug</p>'',
            mail_text = ''<p>/app/handlers/../views/email/password-reset.pug</p>''\<rparr> \<and>
   send ''/app/handlers'' example_renderFile id id (\<lambda>m. Inr (mail_from m)) example_options
     = (Inr ''Bill Schupp <noreply@bill.com>'' :: error + string)"
proof -
  have b: "mailOptions ''/app/handlers'' example_renderFile id id example_options
     = Inr \<lparr>mail_from = ''Bill Schupp <noreply@bill.com>'',
            mail_to = Some ''randy@example.com'',
            mail_subject = Some ''Password Reset'',
            mail_html = ''<p>/app/handlers/../views/email/password-reset.pug</p>'',
            mail_text = ''<p>/app/handlers/../views/email/password-reset.pug</p>''\<rparr>"
    by (simp add: mailOptions_def generateHTML_def example_renderFile_def example_options_def)
  from mailOptions_from [OF b, of "\<lambda>m. Inr (mail_from m)"]
  have "send ''/app/handlers'' example_renderFile id id (\<lambda>m. Inr (mail_from m)) example_options
     = (Inr ''Bill Schupp <noreply@bill.com>'' :: error + string)"
    by simp
  with b show ?thesis by (intro conjI)
qed

end
